theory Spec2Isabelle
  imports Main "HOL-Library.Product_Lexorder"
begin

section \<open>Data model\<close>

text \<open>
  \<^verbatim>\<open>Point\<close> is the dataclass of \<^verbatim>\<open>triangulation.py\<close>: two Python integers
  (unbounded, hence \<^typ>\<open>int\<close>).
\<close>

record Point =
  x :: int
  y :: int

text \<open>A diagonal is the tuple \<^verbatim>\<open>(points[i], points[j])\<close> appended by the sweep.\<close>

type_synonym diagonal = "Point \<times> Point"

section \<open>Orientation predicate\<close>

text \<open>
  \<^verbatim>\<open>orientation(p, q, r)\<close>: the sign of the cross product of \<open>q - p\<close> and \<open>r - p\<close>,
  returned as the Python integers \<open>0\<close> (collinear), \<open>1\<close> (left turn) and \<open>-1\<close> (right turn).
\<close>

definition orientation :: "Point \<Rightarrow> Point \<Rightarrow> Point \<Rightarrow> int" where
  "orientation p q r =
     (let val = (x q - x p) * (y r - y p) - (y q - y p) * (x r - x p)
      in if val = 0 then 0 else (if val > 0 then 1 else - 1))"

section \<open>Python list operations that can raise\<close>

text \<open>
  The exceptions the code can raise: \<^verbatim>\<open>min\<close>/\<^verbatim>\<open>max\<close> of an empty range raise
  \<^verbatim>\<open>ValueError\<close>; indexing out of range and \<^verbatim>\<open>pop\<close> from an empty list raise
  \<^verbatim>\<open>IndexError\<close>. A computation is a value of \<open>error + 'a\<close>, \<open>Inl\<close> the exception.
\<close>

datatype error = ValueError | IndexError

text \<open>\<^verbatim>\<open>xs[i]\<close> for a non-negative index \<open>i\<close>.\<close>

definition getitem :: "'a list \<Rightarrow> nat \<Rightarrow> error + 'a" where
  "getitem xs i = (if i < length xs then Inr (xs ! i) else Inl IndexError)"

text \<open>\<^verbatim>\<open>xs[-k]\<close> for a literal \<open>k \<ge> 1\<close>: the \<open>k\<close>-th element from the end.\<close>

definition getitem_back :: "'a list \<Rightarrow> nat \<Rightarrow> error + 'a" where
  "getitem_back xs k =
     (if 1 \<le> k \<and> k \<le> length xs then Inr (xs ! (length xs - k)) else Inl IndexError)"

text \<open>\<^verbatim>\<open>xs.pop()\<close>: the last element and the shortened list.\<close>

definition pop :: "'a list \<Rightarrow> error + ('a \<times> 'a list)" where
  "pop xs = (if xs = [] then Inl IndexError else Inr (last xs, butlast xs))"

text \<open>
  \<^verbatim>\<open>min(range(n), key=key)\<close> and \<^verbatim>\<open>max(range(n), key=key)\<close>: Python scans the
  range from 0 and replaces the current best only on a strict improvement, so the first
  extremal index is returned; an empty range raises \<^verbatim>\<open>ValueError\<close>.
\<close>

definition min_range :: "nat \<Rightarrow> (nat \<Rightarrow> 'k::linorder) \<Rightarrow> error + nat" where
  "min_range n key =
     (if n = 0 then Inl ValueError
      else Inr (fold (\<lambda>i best. if key i < key best then i else best) [1..<n] 0))"

definition max_range :: "nat \<Rightarrow> (nat \<Rightarrow> 'k::linorder) \<Rightarrow> error + nat" where
  "max_range n key =
     (if n = 0 then Inl ValueError
      else Inr (fold (\<lambda>i best. if key i > key best then i else best) [1..<n] 0))"

section \<open>Chain classifier\<close>

text \<open>
  The first \<^verbatim>\<open>while True\<close> loop of \<^verbatim>\<open>find_chains\<close> (lines 61-65), started at
  \<open>i = left\<close>: label \<open>i\<close>, stop at \<open>right\<close>, else step to \<open>(i + 1) % n\<close>. The loop has no
  bound of its own, so it is a partial function: \<open>None\<close> is "does not return".
  The assignment \<^verbatim>\<open>chain[i] = ...\<close> raises \<^verbatim>\<open>IndexError\<close> out of range.
\<close>

partial_function (option) upper_loop ::
  "nat \<Rightarrow> nat \<Rightarrow> nat \<Rightarrow> string list \<Rightarrow> (error + string list) option" where
  "upper_loop n right i chain =
     (if i < length chain then
        (if i = right then Some (Inr (chain[i := ''UPPER'']))
         else upper_loop n right ((i + 1) mod n) (chain[i := ''UPPER'']))
      else Some (Inl IndexError))"

declare upper_loop.simps [code]

text \<open>
  The second loop (lines 68-73), started at \<open>i = right\<close>: label \<open>i\<close> as LOWER unless it is
  \<open>left\<close> or \<open>right\<close>, stop at \<open>left\<close>, else step to \<open>(i + 1) % n\<close>.
\<close>

partial_function (option) lower_loop ::
  "nat \<Rightarrow> nat \<Rightarrow> nat \<Rightarrow> nat \<Rightarrow> string list \<Rightarrow> (error + string list) option" where
  "lower_loop n left right i chain =
     (if i \<noteq> left \<and> i \<noteq> right then
        (if i < length chain
         then lower_loop n left right ((i + 1) mod n) (chain[i := ''LOWER''])
         else Some (Inl IndexError))
      else if i = left then Some (Inr chain)
      else lower_loop n left right ((i + 1) mod n) chain)"

declare lower_loop.simps [code]

text \<open>
  \<^verbatim>\<open>find_chains(points)\<close>. The keys \<^verbatim>\<open>points[i].x\<close> are read at indices of
  \<^verbatim>\<open>range(n)\<close> only, which are in range. The initial list of \<open>n\<close> empty strings is
  \<^term>\<open>replicate n []\<close>.
\<close>

definition find_chains :: "Point list \<Rightarrow> (error + string list) option" where
  "find_chains points =
     (let n = length points in
      case min_range n (\<lambda>i. x (points ! i)) of
        Inl e \<Rightarrow> Some (Inl e)
      | Inr left \<Rightarrow>
          (case max_range n (\<lambda>i. x (points ! i)) of
             Inl e \<Rightarrow> Some (Inl e)
           | Inr right \<Rightarrow>
               (case upper_loop n right left (replicate n []) of
                  None \<Rightarrow> None
                | Some (Inl e) \<Rightarrow> Some (Inl e)
                | Some (Inr chain) \<Rightarrow> lower_loop n left right right chain)))"

section \<open>Monotone sweep triangulator\<close>

text \<open>
  \<^verbatim>\<open>sorted(range(n), key=lambda i: (points[i].x, -points[i].y))\<close>: Python's sort is
  stable and compares the key tuples lexicographically, as \<^const>\<open>sort_key\<close> does on
  pairs of integers.
\<close>

definition sweep_order :: "Point list \<Rightarrow> nat list" where
  "sweep_order points =
     sort_key (\<lambda>i. (x (points ! i), - y (points ! i))) [0..<length points]"

text \<open>
  The loop \<^verbatim>\<open>while len(stack) > 1: v = stack.pop(); diagonals.append((points[idx], points[v]))\<close>.
  It stands twice in the source with the same body: in the chain-change branch
  (lines 107-109, \<open>idx = cur_idx\<close>) and for the last vertex (lines 140-142,
  \<open>idx = last_idx\<close>). The stack is a Python list: its top is the last element. The
  \<^verbatim>\<open>pop\<close> is guarded by the loop condition and cannot raise.
\<close>

function connect_loop ::
  "Point list \<Rightarrow> nat \<Rightarrow> nat list \<Rightarrow> diagonal list \<Rightarrow> error + (nat list \<times> diagonal list)" where
  "connect_loop points idx stack diagonals =
     (if length stack > 1 then
        (case getitem points idx of
           Inl e \<Rightarrow> Inl e
         | Inr p \<Rightarrow>
             (case getitem points (last stack) of
                Inl e \<Rightarrow> Inl e
              | Inr q \<Rightarrow> connect_loop points idx (butlast stack) (diagonals @ [(p, q)])))
      else Inr (stack, diagonals))"
  by pat_completeness auto
termination
  by (relation "measure (\<lambda>(points, idx, stack, diagonals). length stack)") auto

text \<open>
  The same-chain loop (lines 115-125): while the stack has at least two elements, test
  the orientation of \<open>(stack[-2], stack[-1], cur)\<close>; on the chain's turn pop the top and
  append the diagonal \<^verbatim>\<open>(points[cur_idx], points[a])\<close> with \<open>a = stack[-2]\<close>; else break.
\<close>

function same_chain_loop ::
  "Point list \<Rightarrow> string list \<Rightarrow> nat \<Rightarrow> nat list \<Rightarrow> diagonal list
     \<Rightarrow> error + (nat list \<times> diagonal list)" where
  "same_chain_loop points chain cur_idx stack diagonals =
     (if length stack \<ge> 2 then
        (case getitem points (stack ! (length stack - 2)) of
           Inl e \<Rightarrow> Inl e
         | Inr pa \<Rightarrow>
             (case getitem points (stack ! (length stack - 1)) of
                Inl e \<Rightarrow> Inl e
              | Inr pb \<Rightarrow>
                  (case getitem points cur_idx of
                     Inl e \<Rightarrow> Inl e
                   | Inr pc \<Rightarrow>
                       (case getitem chain cur_idx of
                          Inl e \<Rightarrow> Inl e
                        | Inr label \<Rightarrow>
                            (if (label = ''UPPER'' \<and> orientation pa pb pc > 0) \<or>
                                (label = ''LOWER'' \<and> orientation pa pb pc < 0)
                             then same_chain_loop points chain cur_idx (butlast stack)
                                    (diagonals @ [(pc, pa)])
                             else Inr (stack, diagonals))))))
      else Inr (stack, diagonals))"
  by pat_completeness auto
termination
  by (relation "measure (\<lambda>(points, chain, cur_idx, stack, diagonals). length stack)") auto

text \<open>
  The two loop equations are unconditional recursive equations; they are unfolded by hand
  in the proofs below.
\<close>

declare connect_loop.simps [simp del] same_chain_loop.simps [simp del]

text \<open>
  One iteration of \<^verbatim>\<open>for i in range(2, n - 1)\<close> (lines 102-126) on the state
  \<open>(stack, diagonals)\<close>. \<open>i\<close> is at least 2 wherever the loop calls it, so \<open>i - 1\<close> is the
  Python index \<^verbatim>\<open>i-1\<close>.
\<close>

definition sweep_step ::
  "Point list \<Rightarrow> string list \<Rightarrow> nat list \<Rightarrow> nat \<Rightarrow> nat list \<times> diagonal list
     \<Rightarrow> error + (nat list \<times> diagonal list)" where
  "sweep_step points chain order i st =
     (case st of (stack, diagonals) \<Rightarrow>
      (case getitem order i of
         Inl e \<Rightarrow> Inl e
       | Inr cur_idx \<Rightarrow>
      (case getitem_back stack 1 of
         Inl e \<Rightarrow> Inl e
       | Inr top_idx \<Rightarrow>
      (case getitem chain cur_idx of
         Inl e \<Rightarrow> Inl e
       | Inr cur_label \<Rightarrow>
      (case getitem chain top_idx of
         Inl e \<Rightarrow> Inl e
       | Inr top_label \<Rightarrow>
           if cur_label \<noteq> top_label then
             (case connect_loop points cur_idx stack diagonals of
                Inl e \<Rightarrow> Inl e
              | Inr (stack1, diagonals1) \<Rightarrow>
             (case pop stack1 of
                Inl e \<Rightarrow> Inl e
              | Inr (v, stack2) \<Rightarrow>
             (case getitem order (i - 1) of
                Inl e \<Rightarrow> Inl e
              | Inr prev \<Rightarrow> Inr (stack2 @ [prev, cur_idx], diagonals1))))
           else
             (case same_chain_loop points chain cur_idx stack diagonals of
                Inl e \<Rightarrow> Inl e
              | Inr (stack1, diagonals1) \<Rightarrow> Inr (stack1 @ [cur_idx], diagonals1)))))))"

text \<open>The \<^verbatim>\<open>for\<close> loop over a list of indices, stopping at the first exception.\<close>

fun sweep_loop ::
  "Point list \<Rightarrow> string list \<Rightarrow> nat list \<Rightarrow> nat list \<Rightarrow> nat list \<times> diagonal list
     \<Rightarrow> error + (nat list \<times> diagonal list)" where
  "sweep_loop points chain order [] st = Inr st"
| "sweep_loop points chain order (i # is) st =
     (case sweep_step points chain order i st of
        Inl e \<Rightarrow> Inl e
      | Inr st' \<Rightarrow> sweep_loop points chain order is st')"

text \<open>
  Lines 93-126: the stack is initialised with \<^verbatim>\<open>order[0]\<close> and \<^verbatim>\<open>order[1]\<close>, then the
  loop runs over \<^verbatim>\<open>range(2, n - 1)\<close> (empty when \<open>n \<le> 3\<close>, also for \<open>n = 0\<close> where
  Python's bound is \<open>-1\<close>).
\<close>

definition sweep ::
  "Point list \<Rightarrow> string list \<Rightarrow> nat list \<Rightarrow> error + (nat list \<times> diagonal list)" where
  "sweep points chain order =
     (case getitem order 0 of
        Inl e \<Rightarrow> Inl e
      | Inr o0 \<Rightarrow>
          (case getitem order 1 of
             Inl e \<Rightarrow> Inl e
           | Inr o1 \<Rightarrow>
               sweep_loop points chain order [2..<length points - 1] ([o0, o1], [])))"

text \<open>
  Lines 130-142: \<^verbatim>\<open>last_idx = order[-1]\<close>; one guarded pop without a diagonal; then
  the connecting loop with \<open>idx = last_idx\<close>.
\<close>

definition final_vertex ::
  "Point list \<Rightarrow> nat list \<Rightarrow> nat list \<Rightarrow> diagonal list \<Rightarrow> error + (nat list \<times> diagonal list)" where
  "final_vertex points order stack diagonals =
     (case getitem_back order 1 of
        Inl e \<Rightarrow> Inl e
      | Inr last_idx \<Rightarrow>
          connect_loop points last_idx (if stack \<noteq> [] then butlast stack else stack) diagonals)"

text \<open>
  \<^verbatim>\<open>triangulate_x_monotone(points)\<close>: \<open>None\<close> when \<^const>\<open>find_chains\<close> does not
  return, \<open>Some (Inl e)\<close> when an exception \<open>e\<close> is raised, \<open>Some (Inr diagonals)\<close> for the
  returned list.
\<close>

definition triangulate_x_monotone :: "Point list \<Rightarrow> (error + diagonal list) option" where
  "triangulate_x_monotone points =
     (case find_chains points of
        None \<Rightarrow> None
      | Some (Inl e) \<Rightarrow> Some (Inl e)
      | Some (Inr chain) \<Rightarrow>
          Some (case sweep points chain (sweep_order points) of
                  Inl e \<Rightarrow> Inl e
                | Inr (stack, diagonals) \<Rightarrow>
                    (case final_vertex points (sweep_order points) stack diagonals of
                       Inl e \<Rightarrow> Inl e
                     | Inr (stack', diagonals') \<Rightarrow> Inr diagonals')))"

section \<open>Notions used to state the properties\<close>

text \<open>
  The test of lines 120-121 on the triple \<open>(a, b, cur)\<close>: a left turn while \<open>cur\<close> is
  labelled UPPER, or a right turn while \<open>cur\<close> is labelled LOWER.
\<close>

definition pops_top :: "Point list \<Rightarrow> string list \<Rightarrow> nat \<Rightarrow> nat \<Rightarrow> nat \<Rightarrow> bool" where
  "pops_top points chain cur_idx a b =
     ((chain ! cur_idx = ''UPPER'' \<and>
         orientation (points ! a) (points ! b) (points ! cur_idx) > 0) \<or>
      (chain ! cur_idx = ''LOWER'' \<and>
         orientation (points ! a) (points ! b) (points ! cur_idx) < 0))"

text \<open>
  The specification's choice of the extreme vertices: \<open>l\<close> is the first index, scanning
  from 0, whose \<open>x\<close> is minimal; \<open>r\<close> is the first index whose \<open>x\<close> is maximal.
\<close>

definition first_min_x :: "Point list \<Rightarrow> nat \<Rightarrow> bool" where
  "first_min_x points l \<longleftrightarrow>
     l < length points \<and>
     (\<forall>j\<in>{0..<length points}. x (points ! l) \<le> x (points ! j)) \<and>
     (\<forall>j\<in>{0..<l}. x (points ! l) < x (points ! j))"

definition first_max_x :: "Point list \<Rightarrow> nat \<Rightarrow> bool" where
  "first_max_x points r \<longleftrightarrow>
     r < length points \<and>
     (\<forall>j\<in>{0..<length points}. x (points ! j) \<le> x (points ! r)) \<and>
     (\<forall>j\<in>{0..<r}. x (points ! j) < x (points ! r))"

text \<open>
  The indices visited by the walk \<open>i \<mapsto> (i + 1) % n\<close> from \<open>l\<close> up to and including \<open>r\<close>:
  the interval \<open>l..r\<close>, or, when the walk wraps around the end of the list, the
  indices from \<open>l\<close> on together with those up to \<open>r\<close>.
\<close>

definition on_walk :: "nat \<Rightarrow> nat \<Rightarrow> nat \<Rightarrow> bool" where
  "on_walk l r j \<longleftrightarrow> (if l \<le> r then l \<le> j \<and> j \<le> r else l \<le> j \<or> j \<le> r)"

text \<open>
  The number of steps \<open>i \<mapsto> (i + 1) % n\<close> that lead from \<open>i\<close> to \<open>j\<close>, for indices below
  \<open>n\<close>. It measures the two walks of \<^const>\<open>find_chains\<close>.
\<close>

definition fwd_dist :: "nat \<Rightarrow> nat \<Rightarrow> nat \<Rightarrow> nat" where
  "fwd_dist n i j = (if i \<le> j then j - i else j + n - i)"

section \<open>Example inputs\<close>

text \<open>The hexagon of the specification's concrete scenario.\<close>

definition hexagon :: "Point list" where
  "hexagon = [\<lparr>x = 0, y = 0\<rparr>, \<lparr>x = 1, y = 2\<rparr>, \<lparr>x = 3, y = 3\<rparr>,
              \<lparr>x = 5, y = 1\<rparr>, \<lparr>x = 4, y = - 1\<rparr>, \<lparr>x = 2, y = - 2\<rparr>]"

text \<open>
  A convex pentagon in counter-clockwise order; its sweep reaches the same-chain case
  with a pop at the vertex \<open>(2, -1)\<close>.
\<close>

definition pentagon :: "Point list" where
  "pentagon = [\<lparr>x = 0, y = 0\<rparr>, \<lparr>x = 1, y = - 1\<rparr>, \<lparr>x = 2, y = - 1\<rparr>,
               \<lparr>x = 3, y = 0\<rparr>, \<lparr>x = 1, y = 1\<rparr>]"

text \<open>
  Two counter-clockwise x-monotone pentagons with a reflex vertex at \<open>(2, 3)\<close>: in
  \<open>notched\<close> three indices are on the stack when the loop ends; in \<open>fan\<close> a chain change
  finds three indices on the stack.
\<close>

definition notched :: "Point list" where
  "notched = [\<lparr>x = 0, y = 0\<rparr>, \<lparr>x = 2, y = 3\<rparr>, \<lparr>x = 3, y = - 5\<rparr>,
              \<lparr>x = 5, y = 5\<rparr>, \<lparr>x = 1, y = 8\<rparr>]"

definition fan :: "Point list" where
  "fan = [\<lparr>x = 0, y = 0\<rparr>, \<lparr>x = 2, y = 3\<rparr>, \<lparr>x = 3, y = 4\<rparr>,
          \<lparr>x = 5, y = 5\<rparr>, \<lparr>x = 4, y = 8\<rparr>]"

text \<open>A square: both the minimal and the maximal \<open>x\<close> are taken twice.\<close>

definition square :: "Point list" where
  "square = [\<lparr>x = 0, y = 0\<rparr>, \<lparr>x = 1, y = 0\<rparr>, \<lparr>x = 1, y = 1\<rparr>, \<lparr>x = 0, y = 1\<rparr>]"

section \<open>Properties of the orientation predicate\<close>

lemma cross_swap:
  "(x r - x p) * (y q - y p) - (y r - y p) * (x q - x p)
     = - ((x q - x p) * (y r - y p) - (y q - y p) * (x r - x p))"
  by (simp add: algebra_simps)

text \<open>
  Claim C7. Swapping the last two arguments negates the orientation: left and right turn
  are exchanged and collinear stays collinear; and a triple whose first two points coincide
  is collinear.
\<close>

theorem orientation_antisymmetric:
  "orientation p q r = - orientation p r q \<and> orientation p p r = 0"
proof
  show "orientation p q r = - orientation p r q"
    unfolding orientation_def Let_def cross_swap [of r p q] by auto
  show "orientation p p r = 0"
    by (simp add: orientation_def)
qed

section \<open>Auxiliary lemmas: the stack loops\<close>

lemma getitem_in_range: "i < length xs \<Longrightarrow> getitem xs i = Inr (xs ! i)"
  by (simp add: getitem_def)

lemma getitem_back_last: "xs \<noteq> [] \<Longrightarrow> getitem_back xs (Suc 0) = Inr (last xs)"
  by (cases xs) (simp_all add: getitem_back_def last_conv_nth Suc_le_eq)

lemma connect_loop_short:
  "length stack \<le> 1 \<Longrightarrow> connect_loop points idx stack diagonals = Inr (stack, diagonals)"
  by (subst connect_loop.simps) simp

lemma connect_loop_pop:
  assumes "idx < length points" and "v < length points" and "stack \<noteq> []"
  shows "connect_loop points idx (stack @ [v]) diagonals
           = connect_loop points idx stack (diagonals @ [(points ! idx, points ! v)])"
  using assms by (subst connect_loop.simps) (simp add: getitem_in_range)

lemma connect_loop_closed:
  assumes "idx < length points" and "\<forall>v\<in>set stack. v < length points"
  shows "connect_loop points idx stack diagonals
           = Inr (take 1 stack,
                  diagonals @ map (\<lambda>v. (points ! idx, points ! v)) (rev (drop 1 stack)))"
  using assms(2)
proof (induction stack arbitrary: diagonals rule: rev_induct)
  case Nil
  show ?case by (simp add: connect_loop_short)
next
  case (snoc v stack)
  show ?case
  proof (cases "stack = []")
    case True
    then show ?thesis by (simp add: connect_loop_short)
  next
    case False
    have v: "v < length points" and rest: "\<forall>u\<in>set stack. u < length points"
      using snoc.prems by simp_all
    have "connect_loop points idx (stack @ [v]) diagonals
            = connect_loop points idx stack (diagonals @ [(points ! idx, points ! v)])"
      using assms(1) v False by (rule connect_loop_pop)
    also have "\<dots> = Inr (take 1 stack,
        (diagonals @ [(points ! idx, points ! v)])
          @ map (\<lambda>v. (points ! idx, points ! v)) (rev (drop 1 stack)))"
      using rest by (rule snoc.IH)
    finally show ?thesis using False by (cases stack) simp_all
  qed
qed


lemma same_chain_loop_short:
  "length stack < 2 \<Longrightarrow> same_chain_loop points chain cur stack diagonals = Inr (stack, diagonals)"
  by (subst same_chain_loop.simps) simp

lemma same_chain_loop_pop:
  assumes "cur < length points" and "cur < length chain"
    and "a < length points" and "b < length points"
    and "pops_top points chain cur a b"
  shows "same_chain_loop points chain cur (stack @ [a, b]) diagonals
           = same_chain_loop points chain cur (stack @ [a]) (diagonals @ [(points ! cur, points ! a)])"
  using assms
  by (subst same_chain_loop.simps)
     (simp add: getitem_in_range pops_top_def nth_append butlast_append)

lemma same_chain_loop_break:
  assumes "cur < length points" and "cur < length chain"
    and "a < length points" and "b < length points"
    and "\<not> pops_top points chain cur a b"
  shows "same_chain_loop points chain cur (stack @ [a, b]) diagonals = Inr (stack @ [a, b], diagonals)"
  using assms
  by (subst same_chain_loop.simps)
     (auto simp add: getitem_in_range pops_top_def nth_append)

lemma same_chain_loop_closed:
  assumes "cur < length points" and "cur < length chain"
    and "\<forall>v\<in>set stack. v < length points" and "stack \<noteq> []"
  shows "\<exists>ys zs. stack = ys @ zs \<and> ys \<noteq> [] \<and>
           same_chain_loop points chain cur stack diagonals
             = Inr (ys, diagonals @ map (\<lambda>a. (points ! cur, points ! a)) (rev (butlast (last ys # zs)))) \<and>
           (\<forall>j<length zs. pops_top points chain cur ((last ys # zs) ! j) (zs ! j)) \<and>
           (length ys = 1 \<or> \<not> pops_top points chain cur (ys ! (length ys - 2)) (last ys))"
  using assms(3,4)
proof (induction stack arbitrary: diagonals rule: rev_induct)
  case Nil
  then show ?case by simp
next
  case (snoc b stack)
  show ?case
  proof (cases "stack = []")
    case True
    have "same_chain_loop points chain cur [b] diagonals = Inr ([b], diagonals)"
      by (simp add: same_chain_loop_short)
    then show ?thesis using True
      by (intro exI [of _ "[b]"] exI [of _ "[]"]) simp
  next
    case False
    then obtain pre a where stack: "stack = pre @ [a]"
      by (meson rev_exhaust)
    have a: "a < length points" and b: "b < length points"
      and rest: "\<forall>v\<in>set stack. v < length points"
      using snoc.prems stack by simp_all
    show ?thesis
    proof (cases "pops_top points chain cur a b")
      case no: False
      have "same_chain_loop points chain cur (stack @ [b]) diagonals = Inr (stack @ [b], diagonals)"
        unfolding stack using same_chain_loop_break [OF assms(1,2) a b no] by simp
      then show ?thesis using no stack
        by (intro exI [of _ "stack @ [b]"] exI [of _ "[]"]) (simp add: nth_append)
    next
      case yes: True
      have step: "same_chain_loop points chain cur (stack @ [b]) diagonals
              = same_chain_loop points chain cur stack (diagonals @ [(points ! cur, points ! a)])"
        unfolding stack using same_chain_loop_pop [OF assms(1,2) a b yes] by simp
      from snoc.IH [OF rest False, of "diagonals @ [(points ! cur, points ! a)]"]
      obtain ys zs where dec: "stack = ys @ zs" and ys: "ys \<noteq> []"
        and res: "same_chain_loop points chain cur stack (diagonals @ [(points ! cur, points ! a)])
             = Inr (ys, (diagonals @ [(points ! cur, points ! a)])
                          @ map (\<lambda>a. (points ! cur, points ! a)) (rev (butlast (last ys # zs))))"
        and pops: "\<forall>j<length zs. pops_top points chain cur ((last ys # zs) ! j) (zs ! j)"
        and stop: "length ys = 1 \<or> \<not> pops_top points chain cur (ys ! (length ys - 2)) (last ys)"
        by blast
      have "last stack = a"
        using stack by simp
      then have lasta: "last (last ys # zs) = a"
        using dec ys by (cases "zs = []") simp_all
      have diag: "(diagonals @ [(points ! cur, points ! a)])
                          @ map (\<lambda>a. (points ! cur, points ! a)) (rev (butlast (last ys # zs)))
             = diagonals @ map (\<lambda>a. (points ! cur, points ! a)) (rev (butlast (last ys # zs @ [b])))"
      proof -
        have "butlast (last ys # zs @ [b]) = butlast (last ys # zs) @ [a]"
          using lasta by (metis append_Cons butlast_snoc snoc_eq_iff_butlast list.distinct(1))
        then show ?thesis by simp
      qed
      have pops': "\<forall>j<length (zs @ [b]). pops_top points chain cur ((last ys # zs @ [b]) ! j) ((zs @ [b]) ! j)"
      proof (intro allI impI)
        fix j assume j: "j < length (zs @ [b])"
        show "pops_top points chain cur ((last ys # zs @ [b]) ! j) ((zs @ [b]) ! j)"
        proof (cases "j < length zs")
          case True
          then have "(last ys # zs @ [b]) ! j = (last ys # zs) ! j"
            by (metis append_Cons length_Cons less_Suc_eq nth_append)
          with True pops show ?thesis by (simp add: nth_append)
        next
          case False
          with j have jeq: "j = length zs" by simp
          have "(last ys # zs @ [b]) ! j = last (last ys # zs)"
            unfolding jeq by (metis append_Cons last_conv_nth length_Cons diff_Suc_1 lessI list.distinct(1) nth_append)
          with lasta yes jeq show ?thesis by simp
        qed
      qed
      show ?thesis
        using dec ys step res diag pops' stop
        by (intro exI [of _ ys] exI [of _ "zs @ [b]"]) simp
    qed
  qed
qed


section \<open>Auxiliary lemmas: one iteration and the whole sweep\<close>

lemma sweep_step_change:
  assumes "i < length order" and "order ! i < length points" and "order ! i < length chain"
    and "stack \<noteq> []" and "last stack < length chain"
    and "\<forall>v\<in>set stack. v < length points"
    and "chain ! (order ! i) \<noteq> chain ! last stack"
  shows "sweep_step points chain order i (stack, diagonals)
           = Inr ([order ! (i - 1), order ! i],
                  diagonals @ map (\<lambda>v. (points ! (order ! i), points ! v)) (rev (tl stack)))"
proof -
  have "connect_loop points (order ! i) stack diagonals
          = Inr (take 1 stack,
                 diagonals @ map (\<lambda>v. (points ! (order ! i), points ! v)) (rev (drop 1 stack)))"
    using assms(2,6) by (rule connect_loop_closed)
  moreover have "pop (take 1 stack) = Inr (hd stack, [])"
    using assms(4) by (cases stack) (simp_all add: pop_def)
  moreover have "i - 1 < length order"
    using assms(1) by simp
  ultimately show ?thesis
    using assms
    by (simp add: sweep_step_def getitem_in_range getitem_back_last drop_Suc)
qed

lemma sweep_step_same:
  assumes "i < length order" and "order ! i < length points" and "order ! i < length chain"
    and "stack \<noteq> []" and "last stack < length chain"
    and "\<forall>v\<in>set stack. v < length points"
    and "chain ! (order ! i) = chain ! last stack"
  shows "sweep_step points chain order i (stack, diagonals)
           = (case same_chain_loop points chain (order ! i) stack diagonals of
                Inl e \<Rightarrow> Inl e
              | Inr (stack1, diagonals1) \<Rightarrow> Inr (stack1 @ [order ! i], diagonals1))"
  using assms by (simp add: sweep_step_def getitem_in_range getitem_back_last)

lemma sweep_step_inv:
  assumes "length points = n" and "length chain = n"
    and "i < length order" and "\<forall>v\<in>set order. v < n"
    and "stack \<noteq> []" and "\<forall>v\<in>set stack. v < n"
  shows "\<exists>stack' diagonals'.
           sweep_step points chain order i (stack, diagonals) = Inr (stack', diagonals') \<and>
           2 \<le> length stack' \<and> (\<forall>v\<in>set stack'. v < n) \<and>
           length stack' + length diagonals' = length stack + length diagonals + 1"
proof -
  have cur: "order ! i < n" and prev: "order ! (i - 1) < n"
    using assms(3,4) by (simp_all add: less_imp_diff_less)
  have top: "last stack < n"
    using assms(5,6) by simp
  show ?thesis
  proof (cases "chain ! (order ! i) = chain ! last stack")
    case False
    have "sweep_step points chain order i (stack, diagonals)
           = Inr ([order ! (i - 1), order ! i],
                  diagonals @ map (\<lambda>v. (points ! (order ! i), points ! v)) (rev (tl stack)))"
      using assms cur top False by (intro sweep_step_change) simp_all
    moreover have "length stack = Suc (length (tl stack))"
      using assms(5) by (cases stack) simp_all
    ultimately show ?thesis using cur prev by simp
  next
    case True
    have step: "sweep_step points chain order i (stack, diagonals)
           = (case same_chain_loop points chain (order ! i) stack diagonals of
                Inl e \<Rightarrow> Inl e
              | Inr (stack1, diagonals1) \<Rightarrow> Inr (stack1 @ [order ! i], diagonals1))"
      using assms cur top True by (intro sweep_step_same) simp_all
    have "\<forall>v\<in>set stack. v < length points"
      using assms(1,6) by simp
    from same_chain_loop_closed [of "order ! i" points chain stack diagonals, OF _ _ this assms(5)]
    obtain ys zs where dec: "stack = ys @ zs" and ys: "ys \<noteq> []"
      and res: "same_chain_loop points chain (order ! i) stack diagonals
             = Inr (ys, diagonals @ map (\<lambda>a. (points ! (order ! i), points ! a))
                                      (rev (butlast (last ys # zs))))"
      using cur assms(1,2) by auto
    have "1 \<le> length ys"
      using ys by (cases ys) simp_all
    moreover have "\<forall>v\<in>set ys. v < n"
      using assms(6) dec by simp
    ultimately show ?thesis
      using step res dec cur by simp
  qed
qed

lemma sweep_loop_inv:
  assumes "length points = n" and "length chain = n" and "\<forall>v\<in>set order. v < n"
  shows "\<forall>i\<in>set js. i < length order \<Longrightarrow> stack \<noteq> [] \<Longrightarrow> \<forall>v\<in>set stack. v < n \<Longrightarrow>
         \<exists>stack' diagonals'.
           sweep_loop points chain order js (stack, diagonals) = Inr (stack', diagonals') \<and>
           stack' \<noteq> [] \<and> (js \<noteq> [] \<longrightarrow> 2 \<le> length stack') \<and> (\<forall>v\<in>set stack'. v < n) \<and>
           length stack' + length diagonals' = length stack + length diagonals + length js"
proof (induction js arbitrary: stack diagonals)
  case Nil
  then show ?case by simp
next
  case (Cons j js)
  have "j < length order" using Cons.prems(1) by simp
  from sweep_step_inv [OF assms(1,2) this assms(3) Cons.prems(2,3), of diagonals]
  obtain stack1 diagonals1 where
    step: "sweep_step points chain order j (stack, diagonals) = Inr (stack1, diagonals1)"
    and len: "2 \<le> length stack1" and ok: "\<forall>v\<in>set stack1. v < n"
    and cnt: "length stack1 + length diagonals1 = length stack + length diagonals + 1"
    by blast
  have ne: "stack1 \<noteq> []" using len by auto
  have rest: "\<forall>i\<in>set js. i < length order" using Cons.prems(1) by simp
  from Cons.IH [OF rest ne ok, of diagonals1]
  obtain stack' diagonals' where
    loop: "sweep_loop points chain order js (stack1, diagonals1) = Inr (stack', diagonals')"
    and ne': "stack' \<noteq> []" and len': "js \<noteq> [] \<longrightarrow> 2 \<le> length stack'"
    and ok': "\<forall>v\<in>set stack'. v < n"
    and cnt': "length stack' + length diagonals' = length stack1 + length diagonals1 + length js"
    by blast
  have "2 \<le> length stack'"
    using len len' loop by (cases js) auto
  then show ?case
    using step loop ne' ok' cnt cnt' by simp
qed


lemma length_sweep_order: "length (sweep_order points) = length points"
  by (simp add: sweep_order_def)

lemma set_sweep_order: "set (sweep_order points) = {0..<length points}"
  by (simp add: sweep_order_def)

text \<open>
  The sweep order is what Python's stable \<^verbatim>\<open>sorted\<close> returns: the indices sorted by
  the key, indices of equal key in their original order.
\<close>

lemma sweep_order_sorted_stable:
  "sorted (map (\<lambda>i. (x (points ! i), - y (points ! i))) (sweep_order points)) \<and>
   filter (\<lambda>i. (x (points ! i), - y (points ! i)) = k) (sweep_order points)
     = filter (\<lambda>i. (x (points ! i), - y (points ! i)) = k) [0..<length points]"
  by (simp add: sweep_order_def sort_key_stable)

lemma final_vertex_closed:
  assumes "order \<noteq> []" and "last order < length points"
    and "\<forall>v\<in>set stack. v < length points"
  shows "final_vertex points order stack diagonals
           = Inr (take 1 (butlast stack),
                  diagonals @ map (\<lambda>v. (points ! last order, points ! v))
                                  (rev (drop 1 (butlast stack))))"
proof -
  have "\<forall>v\<in>set (butlast stack). v < length points"
    using assms(3) by (auto dest: in_set_butlastD)
  with assms(2) have "connect_loop points (last order) (butlast stack) diagonals
           = Inr (take 1 (butlast stack),
                  diagonals @ map (\<lambda>v. (points ! last order, points ! v))
                                  (rev (drop 1 (butlast stack))))"
    by (rule connect_loop_closed)
  then show ?thesis
    using assms(1) by (simp add: final_vertex_def getitem_back_last connect_loop_short)
qed

lemma sweep_ok:
  assumes "2 \<le> length points" and "length chain = length points"
  shows "\<exists>stack diagonals.
           sweep points chain (sweep_order points) = Inr (stack, diagonals) \<and>
           2 \<le> length stack \<and> (\<forall>v\<in>set stack. v < length points) \<and>
           length stack + length diagonals = 2 + (length points - 3)"
proof -
  let ?order = "sweep_order points"
  let ?n = "length points"
  have len: "length ?order = ?n" by (rule length_sweep_order)
  have ord: "\<forall>v\<in>set ?order. v < ?n" by (simp add: set_sweep_order)
  have l0: "0 < length ?order" and l1: "1 < length ?order"
    using len assms(1) by linarith+
  then have "?order ! 0 \<in> set ?order" and "?order ! 1 \<in> set ?order"
    by (simp_all only: nth_mem)
  with ord have o0: "?order ! 0 < ?n" and o1: "?order ! 1 < ?n"
    by blast+
  have start: "sweep points chain ?order
                 = sweep_loop points chain ?order [2..<?n - 1] ([?order ! 0, ?order ! 1], [])"
    using l0 l1 by (simp add: sweep_def getitem_def)
  have js: "\<forall>i\<in>set [2..<?n - 1]. i < length ?order"
    using len by auto
  have st: "\<forall>v\<in>set [?order ! 0, ?order ! 1]. v < ?n"
    using o0 o1 by simp
  from sweep_loop_inv [OF refl assms(2) ord js _ st, where diagonals = "[]"]
  obtain stack' diagonals' where
    loop: "sweep_loop points chain ?order [2..<?n - 1] ([?order ! 0, ?order ! 1], [])
             = Inr (stack', diagonals')"
    and ne: "stack' \<noteq> []" and len': "[2..<?n - 1] \<noteq> [] \<longrightarrow> 2 \<le> length stack'"
    and ok: "\<forall>v\<in>set stack'. v < ?n"
    and cnt: "length stack' + length diagonals'
                = length [?order ! 0, ?order ! 1] + length ([]::diagonal list) + length [2..<?n - 1]"
    by blast
  have "2 \<le> length stack'"
  proof (cases "[2..<?n - 1] = []")
    case True
    show ?thesis using loop [unfolded True] by auto
  next
    case False
    then show ?thesis using len' by simp
  qed
  moreover have "length stack' + length diagonals' = 2 + (?n - 3)"
    using cnt by simp
  ultimately show ?thesis
    using start loop ok by simp
qed

lemma triangulate_count:
  assumes "2 \<le> length points" and "find_chains points = Some (Inr chain)"
    and "length chain = length points"
  shows "\<exists>diagonals. triangulate_x_monotone points = Some (Inr diagonals) \<and>
           length diagonals = length points - 3"
proof -
  let ?order = "sweep_order points"
  from sweep_ok [OF assms(1,3)]
  obtain stack ds where sw: "sweep points chain ?order = Inr (stack, ds)"
    and len: "2 \<le> length stack" and ok: "\<forall>v\<in>set stack. v < length points"
    and cnt: "length stack + length ds = 2 + (length points - 3)"
    by blast
  have ne: "?order \<noteq> []"
    using assms(1) length_sweep_order [of points] by auto
  then have "last ?order \<in> set ?order" by simp
  then have lst: "last ?order < length points"
    by (simp add: set_sweep_order)
  have fin: "final_vertex points ?order stack ds
           = Inr (take 1 (butlast stack),
                  ds @ map (\<lambda>v. (points ! last ?order, points ! v)) (rev (drop 1 (butlast stack))))"
    using ne lst ok by (rule final_vertex_closed)
  have "length (ds @ map (\<lambda>v. (points ! last ?order, points ! v)) (rev (drop 1 (butlast stack))))
          = length points - 3"
    using len cnt by simp
  then show ?thesis
    using assms(2) sw fin by (simp add: triangulate_x_monotone_def)
qed


section \<open>Auxiliary lemmas: the chain classifier\<close>

lemma min_scan:
  fixes key :: "nat \<Rightarrow> 'k::linorder"
  assumes "b = fold (\<lambda>i best. if key i < key best then i else best) [1..<Suc m] 0"
  shows "b \<le> m \<and> (\<forall>j\<le>m. key b \<le> key j) \<and> (\<forall>j<b. key b < key j)"
  using assms
proof (induction m arbitrary: b)
  case 0
  then show ?case by simp
next
  case (Suc m)
  define c where "c = fold (\<lambda>i best. if key i < key best then i else best) [1..<Suc m] 0"
  have b: "b = (if key (Suc m) < key c then Suc m else c)"
    unfolding Suc.prems c_def by simp
  have c: "c \<le> m" and cmin: "\<And>j. j \<le> m \<Longrightarrow> key c \<le> key j"
    and cfirst: "\<And>j. j < c \<Longrightarrow> key c < key j"
    using Suc.IH [OF c_def] by blast+
  show ?case
  proof (cases "key (Suc m) < key c")
    case True
    then have bs: "b = Suc m" using b by simp
    have "key (Suc m) < key j" if "j \<le> m" for j
      using cmin [OF that] True by simp
    then show ?thesis unfolding bs
      by (auto simp: le_Suc_eq less_Suc_eq_le intro: less_imp_le)
  next
    case False
    then have bc: "b = c" using b by simp
    have "key c \<le> key j" if "j \<le> Suc m" for j
      using that cmin [of j] False by (cases "j = Suc m") simp_all
    then show ?thesis unfolding bc using c cfirst by simp
  qed
qed

lemma max_scan:
  fixes key :: "nat \<Rightarrow> 'k::linorder"
  assumes "b = fold (\<lambda>i best. if key i > key best then i else best) [1..<Suc m] 0"
  shows "b \<le> m \<and> (\<forall>j\<le>m. key j \<le> key b) \<and> (\<forall>j<b. key j < key b)"
  using assms
proof (induction m arbitrary: b)
  case 0
  then show ?case by simp
next
  case (Suc m)
  define c where "c = fold (\<lambda>i best. if key i > key best then i else best) [1..<Suc m] 0"
  have b: "b = (if key (Suc m) > key c then Suc m else c)"
    unfolding Suc.prems c_def by simp
  have c: "c \<le> m" and cmax: "\<And>j. j \<le> m \<Longrightarrow> key j \<le> key c"
    and cfirst: "\<And>j. j < c \<Longrightarrow> key j < key c"
    using Suc.IH [OF c_def] by blast+
  show ?case
  proof (cases "key (Suc m) > key c")
    case True
    then have bs: "b = Suc m" using b by simp
    have "key j < key (Suc m)" if "j \<le> m" for j
      using cmax [OF that] True by simp
    then show ?thesis unfolding bs
      by (auto simp: le_Suc_eq less_Suc_eq_le intro: less_imp_le)
  next
    case False
    then have bc: "b = c" using b by simp
    have "key j \<le> key c" if "j \<le> Suc m" for j
      using that cmax [of j] False by (cases "j = Suc m") simp_all
    then show ?thesis unfolding bc using c cfirst by simp
  qed
qed

lemma min_range_first:
  fixes key :: "nat \<Rightarrow> 'k::linorder"
  assumes "0 < n"
  shows "\<exists>l. min_range n key = Inr l \<and> l < n \<and> (\<forall>j<n. key l \<le> key j) \<and> (\<forall>j<l. key l < key j)"
proof -
  obtain m where n: "n = Suc m" using assms by (cases n) simp_all
  show ?thesis
    unfolding n min_range_def using min_scan [OF refl, of key m]
    by (simp add: less_Suc_eq_le del: upt_Suc)
qed

lemma max_range_first:
  fixes key :: "nat \<Rightarrow> 'k::linorder"
  assumes "0 < n"
  shows "\<exists>r. max_range n key = Inr r \<and> r < n \<and> (\<forall>j<n. key j \<le> key r) \<and> (\<forall>j<r. key j < key r)"
proof -
  obtain m where n: "n = Suc m" using assms by (cases n) simp_all
  show ?thesis
    unfolding n max_range_def using max_scan [OF refl, of key m]
    by (simp add: less_Suc_eq_le del: upt_Suc)
qed


lemma next_index: "i < n \<Longrightarrow> (i + 1) mod n = (if i + 1 = n then 0 else i + 1)" for i n :: nat
  by auto

lemma upper_loop_closed:
  assumes "d = fwd_dist n i right" and "length chain = n" and "i < n" and "right < n"
  shows "\<exists>c. upper_loop n right i chain = Some (Inr c) \<and> length c = n \<and>
           (\<forall>j<n. c ! j = (if fwd_dist n i j \<le> fwd_dist n i right then ''UPPER'' else chain ! j))"
  using assms
proof (induction d arbitrary: i chain)
  case 0
  then have eq: "i = right"
    by (auto simp: fwd_dist_def split: if_splits)
  have "upper_loop n right i chain = Some (Inr (chain[i := ''UPPER'']))"
    using 0 eq by (subst upper_loop.simps) simp
  moreover have "\<forall>j<n. (chain[i := ''UPPER'']) ! j
                   = (if fwd_dist n i j \<le> fwd_dist n i right then ''UPPER'' else chain ! j)"
    using 0 eq by (auto simp: fwd_dist_def nth_list_update)
  ultimately show ?case using 0 by simp
next
  case (Suc d)
  let ?i = "(i + 1) mod n"
  let ?chain = "chain[i := ''UPPER'']"
  have ne: "i \<noteq> right"
    using Suc.prems by (auto simp: fwd_dist_def)
  have nxt: "?i = (if i + 1 = n then 0 else i + 1)"
    using Suc.prems by (simp add: next_index)
  have i': "?i < n"
    using Suc.prems nxt by (auto split: if_splits)
  have d': "d = fwd_dist n ?i right"
    using Suc.prems ne unfolding nxt by (auto simp: fwd_dist_def split: if_splits)
  have len: "length ?chain = n"
    using Suc.prems by simp
  from Suc.IH [OF d' len i' Suc.prems(4)]
  obtain c where res: "upper_loop n right ?i ?chain = Some (Inr c)" and lc: "length c = n"
    and lab: "\<forall>j<n. c ! j = (if fwd_dist n ?i j \<le> fwd_dist n ?i right then ''UPPER'' else ?chain ! j)"
    by blast
  have step: "upper_loop n right i chain = upper_loop n right ?i ?chain"
    using Suc.prems ne by (subst upper_loop.simps) simp
  have "c ! j = (if fwd_dist n i j \<le> fwd_dist n i right then ''UPPER'' else chain ! j)"
    if j: "j < n" for j
  proof (cases "j = i")
    case True
    have "fwd_dist n ?i i = n - 1"
      using Suc.prems unfolding nxt by (auto simp: fwd_dist_def)
    moreover have "fwd_dist n ?i right < n - 1"
      using Suc.prems ne unfolding nxt by (auto simp: fwd_dist_def split: if_splits)
    ultimately have "c ! i = ?chain ! i"
      using lab Suc.prems(3) by simp
    then show ?thesis
      using True Suc.prems by (simp add: fwd_dist_def)
  next
    case False
    have "(fwd_dist n ?i j \<le> fwd_dist n ?i right) = (fwd_dist n i j \<le> fwd_dist n i right)"
      using Suc.prems ne False j unfolding nxt by (auto simp: fwd_dist_def split: if_splits)
    then show ?thesis
      using lab j False by simp
  qed
  then show ?case using step res lc by simp
qed

lemma lower_loop_closed:
  assumes "d = fwd_dist n i left" and "length chain = n" and "i < n" and "left < n"
  shows "\<exists>c. lower_loop n left right i chain = Some (Inr c) \<and> length c = n \<and>
           (\<forall>j<n. c ! j = (if fwd_dist n i j \<le> fwd_dist n i left \<and> j \<noteq> left \<and> j \<noteq> right
                            then ''LOWER'' else chain ! j))"
  using assms
proof (induction d arbitrary: i chain)
  case 0
  then have eq: "i = left"
    by (auto simp: fwd_dist_def split: if_splits)
  have "lower_loop n left right i chain = Some (Inr chain)"
    using 0 eq by (subst lower_loop.simps) simp
  moreover have "\<forall>j<n. chain ! j
                   = (if fwd_dist n i j \<le> fwd_dist n i left \<and> j \<noteq> left \<and> j \<noteq> right
                      then ''LOWER'' else chain ! j)"
    using 0 eq by (auto simp: fwd_dist_def)
  ultimately show ?case using 0 by simp
next
  case (Suc d)
  let ?i = "(i + 1) mod n"
  let ?chain = "if i \<noteq> left \<and> i \<noteq> right then chain[i := ''LOWER''] else chain"
  have ne: "i \<noteq> left"
    using Suc.prems by (auto simp: fwd_dist_def)
  have nxt: "?i = (if i + 1 = n then 0 else i + 1)"
    using Suc.prems by (simp add: next_index)
  have i': "?i < n"
    using Suc.prems nxt by (auto split: if_splits)
  have d': "d = fwd_dist n ?i left"
    using Suc.prems ne unfolding nxt by (auto simp: fwd_dist_def split: if_splits)
  have len: "length ?chain = n"
    using Suc.prems by simp
  from Suc.IH [OF d' len i' Suc.prems(4)]
  obtain c where res: "lower_loop n left right ?i ?chain = Some (Inr c)" and lc: "length c = n"
    and lab: "\<forall>j<n. c ! j = (if fwd_dist n ?i j \<le> fwd_dist n ?i left \<and> j \<noteq> left \<and> j \<noteq> right
                               then ''LOWER'' else ?chain ! j)"
    by blast
  have step: "lower_loop n left right i chain = lower_loop n left right ?i ?chain"
    using Suc.prems ne by (subst lower_loop.simps) simp
  have "c ! j = (if fwd_dist n i j \<le> fwd_dist n i left \<and> j \<noteq> left \<and> j \<noteq> right
                 then ''LOWER'' else chain ! j)"
    if j: "j < n" for j
  proof (cases "j = i")
    case True
    have "fwd_dist n ?i i = n - 1"
      using Suc.prems unfolding nxt by (auto simp: fwd_dist_def)
    moreover have "fwd_dist n ?i left < n - 1"
      using Suc.prems ne unfolding nxt by (auto simp: fwd_dist_def split: if_splits)
    ultimately have "c ! i = ?chain ! i"
      using lab Suc.prems(3) by simp
    then show ?thesis
      using True ne Suc.prems by (simp add: fwd_dist_def)
  next
    case False
    have "(fwd_dist n ?i j \<le> fwd_dist n ?i left) = (fwd_dist n i j \<le> fwd_dist n i left)"
      using Suc.prems ne False j unfolding nxt by (auto simp: fwd_dist_def split: if_splits)
    then show ?thesis
      using lab j False by simp
  qed
  then show ?case using step res lc by simp
qed


lemma min_range_x:
  assumes "first_min_x points l"
  shows "min_range (length points) (\<lambda>i. x (points ! i)) = Inr l"
proof -
  have pos: "0 < length points"
    using assms by (auto simp: first_min_x_def)
  from min_range_first [OF pos, of "\<lambda>i. x (points ! i)"]
  obtain l' where res: "min_range (length points) (\<lambda>i. x (points ! i)) = Inr l'"
    and l': "l' < length points"
    and least: "\<forall>j<length points. x (points ! l') \<le> x (points ! j)"
    and first: "\<forall>j<l'. x (points ! l') < x (points ! j)"
    by blast
  have l: "l < length points"
    and least_l: "\<And>j. j < length points \<Longrightarrow> x (points ! l) \<le> x (points ! j)"
    and first_l: "\<And>j. j < l \<Longrightarrow> x (points ! l) < x (points ! j)"
    using assms by (simp_all add: first_min_x_def)
  have "\<not> l < l'"
    using first least_l [OF l'] by fastforce
  moreover have "\<not> l' < l"
    using least l first_l [of l'] by fastforce
  ultimately show ?thesis using res by simp
qed

lemma max_range_x:
  assumes "first_max_x points r"
  shows "max_range (length points) (\<lambda>i. x (points ! i)) = Inr r"
proof -
  have pos: "0 < length points"
    using assms by (auto simp: first_max_x_def)
  from max_range_first [OF pos, of "\<lambda>i. x (points ! i)"]
  obtain r' where res: "max_range (length points) (\<lambda>i. x (points ! i)) = Inr r'"
    and r': "r' < length points"
    and greatest: "\<forall>j<length points. x (points ! j) \<le> x (points ! r')"
    and first: "\<forall>j<r'. x (points ! j) < x (points ! r')"
    by blast
  have r: "r < length points"
    and greatest_r: "\<And>j. j < length points \<Longrightarrow> x (points ! j) \<le> x (points ! r)"
    and first_r: "\<And>j. j < r \<Longrightarrow> x (points ! j) < x (points ! r)"
    using assms by (simp_all add: first_max_x_def)
  have "\<not> r < r'"
    using first greatest_r [OF r'] by fastforce
  moreover have "\<not> r' < r"
    using greatest r first_r [of r'] by fastforce
  ultimately show ?thesis using res by simp
qed

lemma find_chains_closed:
  assumes "min_range (length points) (\<lambda>i. x (points ! i)) = Inr l"
    and "max_range (length points) (\<lambda>i. x (points ! i)) = Inr r"
    and "l < length points" and "r < length points"
  shows "\<exists>chain. find_chains points = Some (Inr chain) \<and> length chain = length points \<and>
           (\<forall>j<length points. chain ! j =
              (if fwd_dist (length points) r j \<le> fwd_dist (length points) r l \<and> j \<noteq> l \<and> j \<noteq> r
               then ''LOWER''
               else if fwd_dist (length points) l j \<le> fwd_dist (length points) l r
               then ''UPPER'' else []))"
proof -
  let ?n = "length points"
  have "length (replicate ?n ([]::string)) = ?n" by simp
  from upper_loop_closed [OF refl this assms(3,4)]
  obtain c1 where up: "upper_loop ?n r l (replicate ?n []) = Some (Inr c1)"
    and len1: "length c1 = ?n"
    and lab1: "\<forall>j<?n. c1 ! j = (if fwd_dist ?n l j \<le> fwd_dist ?n l r then ''UPPER''
                                 else replicate ?n [] ! j)"
    by blast
  from lower_loop_closed [OF refl len1 assms(4,3), of r]
  obtain c2 where low: "lower_loop ?n l r r c1 = Some (Inr c2)"
    and len2: "length c2 = ?n"
    and lab2: "\<forall>j<?n. c2 ! j = (if fwd_dist ?n r j \<le> fwd_dist ?n r l \<and> j \<noteq> l \<and> j \<noteq> r
                                 then ''LOWER'' else c1 ! j)"
    by blast
  have "find_chains points = Some (Inr c2)"
    using assms(1,2) up low by (simp add: find_chains_def)
  moreover have "\<forall>j<?n. c2 ! j =
              (if fwd_dist ?n r j \<le> fwd_dist ?n r l \<and> j \<noteq> l \<and> j \<noteq> r then ''LOWER''
               else if fwd_dist ?n l j \<le> fwd_dist ?n l r then ''UPPER'' else [])"
    using lab1 lab2 by simp
  ultimately show ?thesis using len2 by blast
qed

lemma find_chains_total:
  assumes "points \<noteq> []"
  shows "\<exists>chain. find_chains points = Some (Inr chain) \<and> length chain = length points"
proof -
  have pos: "0 < length points" using assms by simp
  obtain l where l: "min_range (length points) (\<lambda>i. x (points ! i)) = Inr l" "l < length points"
    using min_range_first [OF pos, of "\<lambda>i. x (points ! i)"] by blast
  obtain r where r: "max_range (length points) (\<lambda>i. x (points ! i)) = Inr r" "r < length points"
    using max_range_first [OF pos, of "\<lambda>i. x (points ! i)"] by blast
  from find_chains_closed [OF l(1) r(1) l(2) r(2)] show ?thesis by blast
qed

lemma cyclic_cover:
  assumes "l < n" and "r < n" and "j < n" and "l \<noteq> r"
  shows "fwd_dist n r j \<le> fwd_dist n r l \<or> fwd_dist n l j \<le> fwd_dist n l r"
  using assms by (auto simp: fwd_dist_def)

lemma walk_labels:
  assumes "l < n" and "r < n" and "j < n" and "l \<noteq> r"
  shows "(if fwd_dist n r j \<le> fwd_dist n r l \<and> j \<noteq> l \<and> j \<noteq> r then ''LOWER''
          else if fwd_dist n l j \<le> fwd_dist n l r then ''UPPER'' else [])
         = (if on_walk l r j then ''UPPER'' else ''LOWER'')"
proof -
  consider (a) "l < r" "j < l" | (b) "l < r" "l \<le> j" "j \<le> r" | (c) "l < r" "r < j"
    | (d) "r < l" "j \<le> r" | (e) "r < l" "r < j" "j < l" | (f) "r < l" "l \<le> j"
    using assms(4) by linarith
  then show ?thesis
  proof cases
    case a
    with assms show ?thesis by (auto simp: fwd_dist_def on_walk_def)
  next
    case b
    with assms show ?thesis by (auto simp: fwd_dist_def on_walk_def)
  next
    case c
    with assms show ?thesis by (auto simp: fwd_dist_def on_walk_def)
  next
    case d
    with assms show ?thesis by (auto simp: fwd_dist_def on_walk_def)
  next
    case e
    with assms show ?thesis by (auto simp: fwd_dist_def on_walk_def)
  next
    case f
    with assms show ?thesis by (auto simp: fwd_dist_def on_walk_def)
  qed
qed

section \<open>The chain classifier\<close>

text \<open>
  Claim C6. For a non-empty point list whose first minimum-\<open>x\<close> index \<open>l\<close> differs from
  its first maximum-\<open>x\<close> index \<open>r\<close>, \<^const>\<open>find_chains\<close> selects \<open>left = l\<close> and
  \<open>right = r\<close> (the first extremal indices, also under ties): the list it returns labels
  exactly the indices on the walk from \<open>l\<close> to \<open>r\<close> UPPER and all others LOWER. So \<open>l\<close>
  and \<open>r\<close> are UPPER and every index carries UPPER or LOWER.
\<close>

theorem find_chains_labels:
  assumes "points \<noteq> []" and "first_min_x points l" and "first_max_x points r" and "l \<noteq> r"
  shows "min_range (length points) (\<lambda>i. x (points ! i)) = Inr l \<and>
         max_range (length points) (\<lambda>i. x (points ! i)) = Inr r \<and>
         (\<exists>chain. find_chains points = Some (Inr chain) \<and>
            chain = map (\<lambda>j. if on_walk l r j then ''UPPER'' else ''LOWER'') [0..<length points] \<and>
            chain ! l = ''UPPER'' \<and> chain ! r = ''UPPER'' \<and>
            (\<forall>i<length points. chain ! i = ''UPPER'' \<or> chain ! i = ''LOWER''))"
proof -
  let ?n = "length points"
  let ?lab = "\<lambda>j. if on_walk l r j then ''UPPER'' else ''LOWER''"
  have mn: "min_range ?n (\<lambda>i. x (points ! i)) = Inr l"
    using assms(2) by (rule min_range_x)
  have mx: "max_range ?n (\<lambda>i. x (points ! i)) = Inr r"
    using assms(3) by (rule max_range_x)
  have l: "l < ?n" and r: "r < ?n"
    using assms(2,3) by (simp_all add: first_min_x_def first_max_x_def)
  from find_chains_closed [OF mn mx l r]
  obtain chain where res: "find_chains points = Some (Inr chain)" and len: "length chain = ?n"
    and lab: "\<forall>j<?n. chain ! j =
              (if fwd_dist ?n r j \<le> fwd_dist ?n r l \<and> j \<noteq> l \<and> j \<noteq> r then ''LOWER''
               else if fwd_dist ?n l j \<le> fwd_dist ?n l r then ''UPPER'' else [])"
    by blast
  have nth: "chain ! j = ?lab j" if "j < ?n" for j
    using lab that walk_labels [OF l r that assms(4)] by simp
  have eq: "chain = map ?lab [0..<?n]"
    using len nth by (intro nth_equalityI) simp_all
  have "chain ! l = ''UPPER''" and "chain ! r = ''UPPER''"
    using nth [OF l] nth [OF r] by (simp_all add: on_walk_def)
  moreover have "\<forall>i<?n. chain ! i = ''UPPER'' \<or> chain ! i = ''LOWER''"
    using nth by simp
  ultimately show ?thesis
    using mn mx res eq by blast
qed

text \<open>
  The square has ties for both extremes: \<open>left = 0\<close> and \<open>right = 1\<close>, not the last
  extremal indices 3 and 2, which would give other labels.
\<close>

theorem find_chains_labels_witness:
  "min_range (length square) (\<lambda>i. x (square ! i)) = Inr 0 \<and>
   max_range (length square) (\<lambda>i. x (square ! i)) = Inr 1 \<and>
   find_chains square = Some (Inr [''UPPER'', ''UPPER'', ''LOWER'', ''LOWER''])"
proof -
  have "square \<noteq> []"
    by (simp add: square_def)
  moreover have "first_min_x square 0"
    by code_simp
  moreover have "first_max_x square 1"
    by code_simp
  moreover have "(0::nat) \<noteq> 1"
    by simp
  ultimately have "min_range (length square) (\<lambda>i. x (square ! i)) = Inr 0 \<and>
         max_range (length square) (\<lambda>i. x (square ! i)) = Inr 1 \<and>
         (\<exists>chain. find_chains square = Some (Inr chain) \<and>
            chain = map (\<lambda>j. if on_walk 0 1 j then ''UPPER'' else ''LOWER'') [0..<length square] \<and>
            chain ! 0 = ''UPPER'' \<and> chain ! 1 = ''UPPER'' \<and>
            (\<forall>i<length square. chain ! i = ''UPPER'' \<or> chain ! i = ''LOWER''))"
    by (rule find_chains_labels)
  moreover have "map (\<lambda>j. if on_walk 0 1 j then ''UPPER'' else ''LOWER'') [0..<length square]
                   = [''UPPER'', ''UPPER'', ''LOWER'', ''LOWER'']"
    by code_simp
  ultimately show ?thesis by auto
qed

section \<open>The sweep\<close>

text \<open>
  Claim C4. In the chain-change case of an iteration (the labels of \<open>cur = order[i]\<close> and
  of the stack's top differ), every index on the stack except the bottom one is connected
  to \<open>cur\<close> by an appended diagonal, in pop order from the top down, and afterwards the
  stack is exactly \<open>[order[i-1], cur]\<close>.
\<close>

theorem chain_transition:
  assumes "2 \<le> i" and "i < length order"
    and "order ! i < length points" and "order ! i < length chain"
    and "stack \<noteq> []" and "last stack < length chain"
    and "\<forall>v\<in>set stack. v < length points"
    and "chain ! (order ! i) \<noteq> chain ! last stack"
  shows "sweep_step points chain order i (stack, diagonals)
           = Inr ([order ! (i - 1), order ! i],
                  diagonals @ map (\<lambda>v. (points ! (order ! i), points ! v)) (rev (tl stack)))"
  using assms(2-8) by (rule sweep_step_change)

text \<open>
  In \<open>fan\<close> the iteration \<open>i = 3\<close> meets the stack \<open>[0, 1, 2]\<close>: indices 2 and 1 are
  connected to \<open>cur = 4\<close>, the bottom 0 is not.
\<close>

theorem chain_transition_witness:
  "sweep_step fan [''UPPER'', ''UPPER'', ''UPPER'', ''UPPER'', ''LOWER''] [0, 1, 2, 4, 3] 3
       ([0, 1, 2], [])
     = Inr ([2, 4], [(fan ! 4, fan ! 2), (fan ! 4, fan ! 1)])"
  using chain_transition [of 3 "[0, 1, 2, 4, 3]" fan
      "[''UPPER'', ''UPPER'', ''UPPER'', ''UPPER'', ''LOWER'']" "[0, 1, 2]" "[]"]
  by (simp add: fan_def)

text \<open>
  Claim C2 as stated fails: in the same-chain case the appended diagonal does not connect
  \<open>cur\<close> to the popped top \<open>b = stack[-1]\<close> but to \<open>a = stack[-2]\<close>, the new top. In the
  pentagon the iteration \<open>i = 3\<close> (\<open>cur = 2\<close>) meets the stack \<open>[4, 1]\<close>, pops 1 and appends
  the diagonal to vertex 4; the diagonal to the popped vertex 1 would be a polygon edge.
\<close>

theorem same_chain_popped_counterexample:
  "find_chains pentagon = Some (Inr [''UPPER'', ''UPPER'', ''UPPER'', ''UPPER'', ''LOWER'']) \<and>
   sweep_order pentagon = [0, 4, 1, 2, 3] \<and>
   pops_top pentagon [''UPPER'', ''UPPER'', ''UPPER'', ''UPPER'', ''LOWER''] 2 4 1 \<and>
   sweep_step pentagon [''UPPER'', ''UPPER'', ''UPPER'', ''UPPER'', ''LOWER''] [0, 4, 1, 2, 3] 3
       ([4, 1], [(pentagon ! 1, pentagon ! 4)])
     = Inr ([4, 2], [(pentagon ! 1, pentagon ! 4), (pentagon ! 2, pentagon ! 4)]) \<and>
   sweep_step pentagon [''UPPER'', ''UPPER'', ''UPPER'', ''UPPER'', ''LOWER''] [0, 4, 1, 2, 3] 3
       ([4, 1], [(pentagon ! 1, pentagon ! 4)])
     \<noteq> Inr ([4, 2], [(pentagon ! 1, pentagon ! 4), (pentagon ! 2, pentagon ! 1)]) \<and>
   triangulate_x_monotone pentagon
     = Some (Inr [(pentagon ! 1, pentagon ! 4), (pentagon ! 2, pentagon ! 4)])"
  by code_simp

text \<open>
  Claim C2, amended. In the same-chain case the stack splits as \<open>ys @ zs\<close> with \<open>ys\<close>
  non-empty: the elements of \<open>zs\<close> are popped from the top down, each while the triple
  (element below it, it, \<open>cur\<close>) passes the turn test; each pop appends the diagonal from
  \<open>cur\<close> to the element below the popped one (the new top); popping stops when one
  element remains or at the first triple that fails the test; then \<open>cur\<close> is pushed.
\<close>

theorem same_chain_step:
  assumes "2 \<le> i" and "i < length order"
    and "order ! i < length points" and "order ! i < length chain"
    and "stack \<noteq> []" and "last stack < length chain"
    and "\<forall>v\<in>set stack. v < length points"
    and "chain ! (order ! i) = chain ! last stack"
  shows "\<exists>ys zs. stack = ys @ zs \<and> ys \<noteq> [] \<and>
           sweep_step points chain order i (stack, diagonals)
             = Inr (ys @ [order ! i],
                    diagonals @ map (\<lambda>a. (points ! (order ! i), points ! a))
                                    (rev (butlast (last ys # zs)))) \<and>
           (\<forall>j<length zs. pops_top points chain (order ! i) ((last ys # zs) ! j) (zs ! j)) \<and>
           (length ys = 1 \<or>
            \<not> pops_top points chain (order ! i) (ys ! (length ys - 2)) (last ys))"
proof -
  have step: "sweep_step points chain order i (stack, diagonals)
           = (case same_chain_loop points chain (order ! i) stack diagonals of
                Inl e \<Rightarrow> Inl e
              | Inr (stack1, diagonals1) \<Rightarrow> Inr (stack1 @ [order ! i], diagonals1))"
    using assms(2-8) by (rule sweep_step_same)
  from same_chain_loop_closed [OF assms(3,4,7,5), of diagonals]
  obtain ys zs where "stack = ys @ zs" and "ys \<noteq> []"
    and "same_chain_loop points chain (order ! i) stack diagonals
           = Inr (ys, diagonals @ map (\<lambda>a. (points ! (order ! i), points ! a))
                                    (rev (butlast (last ys # zs))))"
    and "\<forall>j<length zs. pops_top points chain (order ! i) ((last ys # zs) ! j) (zs ! j)"
    and "length ys = 1 \<or> \<not> pops_top points chain (order ! i) (ys ! (length ys - 2)) (last ys)"
    by blast
  then show ?thesis
    using step by (intro exI [of _ ys] exI [of _ zs]) simp
qed

theorem same_chain_step_witness:
  "\<exists>ys zs. [4, 1] = ys @ zs \<and> ys \<noteq> [] \<and>
     sweep_step pentagon [''UPPER'', ''UPPER'', ''UPPER'', ''UPPER'', ''LOWER''] [0, 4, 1, 2, 3] 3
         ([4, 1], [])
       = Inr (ys @ [[0, 4, 1, 2, 3] ! 3],
              [] @ map (\<lambda>a. (pentagon ! ([0, 4, 1, 2, 3] ! 3), pentagon ! a))
                       (rev (butlast (last ys # zs)))) \<and>
     (\<forall>j<length zs. pops_top pentagon [''UPPER'', ''UPPER'', ''UPPER'', ''UPPER'', ''LOWER'']
         ([0, 4, 1, 2, 3] ! 3) ((last ys # zs) ! j) (zs ! j)) \<and>
     (length ys = 1 \<or>
      \<not> pops_top pentagon [''UPPER'', ''UPPER'', ''UPPER'', ''UPPER'', ''LOWER'']
          ([0, 4, 1, 2, 3] ! 3) (ys ! (length ys - 2)) (last ys))"
  by (rule same_chain_step) (simp_all add: pentagon_def)

section \<open>The last vertex\<close>

text \<open>
  Claim C5. After the main loop of a run on at least two points, the stack holds at least
  two indices. With \<open>last = order[-1]\<close>, the top is popped and gets no diagonal; the
  indices between top and bottom are popped from the top down and each gets the diagonal
  \<open>(points[last], points[v])\<close>; the bottom index stays on the stack alone and gets no
  diagonal. The list so extended is what \<^const>\<open>triangulate_x_monotone\<close> returns.
\<close>

theorem final_vertex_after_sweep:
  assumes "2 \<le> length points" and "length chain = length points"
    and "sweep points chain (sweep_order points) = Inr (stack, diagonals)"
  shows "2 \<le> length stack \<and>
         getitem_back (sweep_order points) 1 = Inr (last (sweep_order points)) \<and>
         final_vertex points (sweep_order points) stack diagonals
           = Inr ([hd stack],
                  diagonals @ map (\<lambda>v. (points ! last (sweep_order points), points ! v))
                                  (rev (tl (butlast stack)))) \<and>
         (find_chains points = Some (Inr chain) \<longrightarrow>
            triangulate_x_monotone points
              = Some (Inr (diagonals @ map (\<lambda>v. (points ! last (sweep_order points), points ! v))
                                           (rev (tl (butlast stack))))))"
proof -
  let ?order = "sweep_order points"
  from sweep_ok [OF assms(1,2)] assms(3)
  have len: "2 \<le> length stack" and ok: "\<forall>v\<in>set stack. v < length points"
    by auto
  have ne: "?order \<noteq> []"
    using assms(1) length_sweep_order [of points] by auto
  then have "last ?order \<in> set ?order"
    by simp
  then have lst: "last ?order < length points"
    by (simp add: set_sweep_order)
  from len obtain a b rest where "stack = a # b # rest"
    by (auto simp: numeral_2_eq_2 Suc_le_length_iff)
  then have "take 1 (butlast stack) = [hd stack]"
    by simp
  moreover have "drop 1 (butlast stack) = tl (butlast stack)"
    by (simp add: drop_Suc)
  moreover note final_vertex_closed [OF ne lst ok, of diagonals]
  ultimately have fin: "final_vertex points ?order stack diagonals
           = Inr ([hd stack],
                  diagonals @ map (\<lambda>v. (points ! last ?order, points ! v))
                                  (rev (tl (butlast stack))))"
    by simp
  have "getitem_back ?order 1 = Inr (last ?order)"
    using ne getitem_back_last [of ?order] by simp
  then show ?thesis
    using len fin assms(3) by (simp add: triangulate_x_monotone_def)
qed

text \<open>
  In \<open>notched\<close> the loop ends with the stack \<open>[4, 1, 2]\<close>: 2 is popped silently, 1 is
  connected to \<open>last = 3\<close>, and 4 stays.
\<close>

theorem final_vertex_after_sweep_witness:
  "sweep notched [''UPPER'', ''UPPER'', ''UPPER'', ''UPPER'', ''LOWER''] (sweep_order notched)
     = Inr ([4, 1, 2], [(notched ! 1, notched ! 4)]) \<and>
   final_vertex notched (sweep_order notched) [4, 1, 2] [(notched ! 1, notched ! 4)]
     = Inr ([4], [(notched ! 1, notched ! 4), (notched ! 3, notched ! 1)]) \<and>
   triangulate_x_monotone notched
     = Some (Inr [(notched ! 1, notched ! 4), (notched ! 3, notched ! 1)])"
proof -
  have n: "2 \<le> length notched"
    by (simp add: notched_def)
  have c: "length [''UPPER'', ''UPPER'', ''UPPER'', ''UPPER'', ''LOWER''] = length notched"
    by (simp add: notched_def)
  have s: "sweep notched [''UPPER'', ''UPPER'', ''UPPER'', ''UPPER'', ''LOWER''] (sweep_order notched)
             = Inr ([4, 1, 2], [(notched ! 1, notched ! 4)])"
    by code_simp
  have f: "find_chains notched = Some (Inr [''UPPER'', ''UPPER'', ''UPPER'', ''UPPER'', ''LOWER''])"
    by code_simp
  have o: "last (sweep_order notched) = 3"
    by code_simp
  show ?thesis
    using final_vertex_after_sweep [OF n c s] s f o by simp
qed

section \<open>The whole triangulation\<close>

text \<open>
  The number of returned pairs does not depend on the geometry of the input: every
  iteration raises the sum of stack size and diagonal count by one, so a list of
  \<open>n \<ge> 3\<close> points yields \<open>n - 3\<close> pairs.
\<close>

lemma triangulate_length:
  assumes "3 \<le> length points"
  shows "\<exists>diagonals. triangulate_x_monotone points = Some (Inr diagonals) \<and>
           int (length diagonals) = int (length points) - 3"
proof -
  have "points \<noteq> []" using assms by auto
  then obtain chain where "find_chains points = Some (Inr chain)"
    and "length chain = length points"
    using find_chains_total by blast
  moreover have "2 \<le> length points" using assms by simp
  ultimately obtain diagonals where "triangulate_x_monotone points = Some (Inr diagonals)"
    and "length diagonals = length points - 3"
    using triangulate_count by blast
  then show ?thesis using assms by auto
qed

text \<open>
  Claim C8. On every list of exactly three points \<^const>\<open>triangulate_x_monotone\<close> returns
  the empty list of diagonals.
\<close>

theorem triangle_no_diagonals:
  assumes "length points = 3"
  shows "triangulate_x_monotone points = Some (Inr [])"
proof -
  have "points \<noteq> []" using assms by auto
  then obtain chain where "find_chains points = Some (Inr chain)"
    and "length chain = length points"
    using find_chains_total by blast
  moreover have "2 \<le> length points" using assms by simp
  ultimately obtain diagonals where "triangulate_x_monotone points = Some (Inr diagonals)"
    and "length diagonals = length points - 3"
    using triangulate_count by blast
  then show ?thesis using assms by simp
qed

theorem triangle_no_diagonals_witness:
  "triangulate_x_monotone [\<lparr>x = 0, y = 0\<rparr>, \<lparr>x = 4, y = 0\<rparr>, \<lparr>x = 1, y = 3\<rparr>] = Some (Inr [])"
  by (rule triangle_no_diagonals) simp

text \<open>
  Claim C9. On every list of at least two points \<^const>\<open>triangulate_x_monotone\<close>
  terminates and returns a list of diagonals: the two walks of \<^const>\<open>find_chains\<close>
  reach their end, no exception is raised, and the stack loops (total functions by their
  termination proofs) finish.
\<close>

theorem triangulate_returns:
  assumes "2 \<le> length points"
  shows "\<exists>diagonals. triangulate_x_monotone points = Some (Inr diagonals)"
proof -
  have "points \<noteq> []" using assms by auto
  then obtain chain where "find_chains points = Some (Inr chain)"
    and "length chain = length points"
    using find_chains_total by blast
  with assms show ?thesis
    using triangulate_count by blast
qed

theorem triangulate_returns_witness:
  "\<exists>diagonals. triangulate_x_monotone [\<lparr>x = 0, y = 0\<rparr>, \<lparr>x = 0, y = 0\<rparr>] = Some (Inr diagonals)"
  by (rule triangulate_returns) simp

text \<open>
  Claim C10. On a list of fewer than two points \<^const>\<open>triangulate_x_monotone\<close> returns
  no list of diagonals. On the empty list \<^const>\<open>find_chains\<close> raises \<^verbatim>\<open>ValueError\<close>
  (the minimum of an empty range). On a single point \<^const>\<open>find_chains\<close> returns, and
  reading the second element of the sweep order raises \<^verbatim>\<open>IndexError\<close>.
\<close>

theorem triangulate_too_short:
  assumes "length points < 2"
  shows "find_chains points
           = (if points = [] then Some (Inl ValueError) else Some (Inr [''UPPER''])) \<and>
         getitem (sweep_order points) 1 = Inl IndexError \<and>
         triangulate_x_monotone points
           = Some (Inl (if points = [] then ValueError else IndexError))"
proof (cases points)
  case Nil
  then show ?thesis
    by (simp add: find_chains_def min_range_def triangulate_x_monotone_def sweep_order_def
        getitem_def)
next
  case (Cons p ps)
  with assms have ps: "ps = []" by simp
  have up: "upper_loop 1 0 0 [[]] = Some (Inr [''UPPER''])"
    by (subst upper_loop.simps) simp
  have low: "lower_loop 1 0 0 0 [''UPPER''] = Some (Inr [''UPPER''])"
    by (subst lower_loop.simps) simp
  have fc: "find_chains [p] = Some (Inr [''UPPER''])"
    using up low by (simp add: find_chains_def min_range_def max_range_def)
  have so: "sweep_order [p] = [0]"
    by (simp add: sweep_order_def)
  show ?thesis
    unfolding Cons ps using fc so
    by (simp add: triangulate_x_monotone_def sweep_def getitem_def)
qed

theorem triangulate_too_short_witness:
  "triangulate_x_monotone [] = Some (Inl ValueError) \<and>
   find_chains [\<lparr>x = 7, y = 7\<rparr>] = Some (Inr [''UPPER'']) \<and>
   triangulate_x_monotone [\<lparr>x = 7, y = 7\<rparr>] = Some (Inl IndexError)"
  using triangulate_too_short [of "[]"] triangulate_too_short [of "[\<lparr>x = 7, y = 7\<rparr>]"]
  by simp

text \<open>
  Claim C3. On the hexagon \<open>(0,0), (1,2), (3,3), (5,1), (4,-1), (2,-2)\<close>,
  \<^const>\<open>find_chains\<close> labels the first four vertices UPPER and the last two LOWER, and
  \<^const>\<open>triangulate_x_monotone\<close> returns three diagonals, which as unordered pairs of
  endpoints are \<open>{(1,2),(2,-2)}\<close>, \<open>{(2,-2),(3,3)}\<close> and \<open>{(3,3),(4,-1)}\<close>.
\<close>

theorem hexagon_scenario:
  "find_chains hexagon
     = Some (Inr [''UPPER'', ''UPPER'', ''UPPER'', ''UPPER'', ''LOWER'', ''LOWER'']) \<and>
   triangulate_x_monotone hexagon
     = Some (Inr [(\<lparr>x = 2, y = - 2\<rparr>, \<lparr>x = 1, y = 2\<rparr>),
                  (\<lparr>x = 3, y = 3\<rparr>, \<lparr>x = 2, y = - 2\<rparr>),
                  (\<lparr>x = 4, y = - 1\<rparr>, \<lparr>x = 3, y = 3\<rparr>)]) \<and>
   (\<lambda>(a, b). {a, b}) ` set [(\<lparr>x = 2, y = - 2\<rparr>, \<lparr>x = 1, y = 2\<rparr>),
                           (\<lparr>x = 3, y = 3\<rparr>, \<lparr>x = 2, y = - 2\<rparr>),
                           (\<lparr>x = 4, y = - 1\<rparr>, \<lparr>x = 3, y = 3\<rparr>)]
     = {{\<lparr>x = 1, y = 2\<rparr>, \<lparr>x = 2, y = - 2\<rparr>},
        {\<lparr>x = 2, y = - 2\<rparr>, \<lparr>x = 3, y = 3\<rparr>},
        {\<lparr>x = 3, y = 3\<rparr>, \<lparr>x = 4, y = - 1\<rparr>}}"
proof (intro conjI)
  show "find_chains hexagon
     = Some (Inr [''UPPER'', ''UPPER'', ''UPPER'', ''UPPER'', ''LOWER'', ''LOWER''])"
    by code_simp
  show "triangulate_x_monotone hexagon
     = Some (Inr [(\<lparr>x = 2, y = - 2\<rparr>, \<lparr>x = 1, y = 2\<rparr>),
                  (\<lparr>x = 3, y = 3\<rparr>, \<lparr>x = 2, y = - 2\<rparr>),
                  (\<lparr>x = 4, y = - 1\<rparr>, \<lparr>x = 3, y = 3\<rparr>)])"
    by code_simp
  show "(\<lambda>(a, b). {a, b}) ` set [(\<lparr>x = 2, y = - 2\<rparr>, \<lparr>x = 1, y = 2\<rparr>),
                           (\<lparr>x = 3, y = 3\<rparr>, \<lparr>x = 2, y = - 2\<rparr>),
                           (\<lparr>x = 4, y = - 1\<rparr>, \<lparr>x = 3, y = 3\<rparr>)]
     = {{\<lparr>x = 1, y = 2\<rparr>, \<lparr>x = 2, y = - 2\<rparr>},
        {\<lparr>x = 2, y = - 2\<rparr>, \<lparr>x = 3, y = 3\<rparr>},
        {\<lparr>x = 3, y = 3\<rparr>, \<lparr>x = 4, y = - 1\<rparr>}}"
    by (simp add: insert_commute)
qed

end
